theory Spec2Isabelle
  imports Complex_Main "HOL-Library.Multiset"
begin

section \<open>Python values shared by the scripts\<close>

text \<open>
  The scripts are flat Python. Exceptions are values of \<open>py_error\<close>; a computation that
  may raise returns \<open>py_error + 'a\<close> with \<open>Inl\<close> the exception.

  A Python \<open>float\<close> is modelled as \<open>pyfloat\<close>: a finite value is a real number (rounding
  is not modelled), and the three special values are kept apart because \<open>math.floor\<close>
  raises on them. Strings are ASCII strings. A parsed JSON object is the dict that
  \<open>json.loads\<close> builds, its keys in order of appearance and distinct.
\<close>

datatype py_error =
  AttributeError | TypeError | ValueError | OverflowError | IndexError | RemoteError string

datatype pyfloat = Fin real | PInf | NInf | NaN

datatype json =
    JNull
  | JBool bool
  | JInt int
  | JFloat pyfloat
  | JStr string
  | JArr "json list"
  | JObj "(string \<times> json) list"

text \<open>\<open>obj.get(k)\<close>: only a dict has \<open>get\<close>; a missing key reads as \<open>None\<close>.\<close>

fun dict_get :: "json \<Rightarrow> string \<Rightarrow> py_error + json" where
  "dict_get (JObj kvs) k = Inr (case map_of kvs k of None \<Rightarrow> JNull | Some v \<Rightarrow> v)"
| "dict_get JNull k = Inl AttributeError"
| "dict_get (JBool b) k = Inl AttributeError"
| "dict_get (JInt n) k = Inl AttributeError"
| "dict_get (JFloat f) k = Inl AttributeError"
| "dict_get (JStr s) k = Inl AttributeError"
| "dict_get (JArr xs) k = Inl AttributeError"

text \<open>
  \<open>float(x)\<close> on a parsed JSON value. An integer that rounds beyond the largest double
  raises OverflowError; a string is handed to the interpreter's float parser
  \<open>str_float\<close> (\<open>None\<close> when it raises ValueError), which accepts \<open>"nan"\<close> and \<open>"inf"\<close>.
\<close>

definition FLOAT_INT_LIMIT :: int where
  "FLOAT_INT_LIMIT = 2 ^ 1024 - 2 ^ 970"

fun py_float :: "(string \<Rightarrow> pyfloat option) \<Rightarrow> json \<Rightarrow> py_error + pyfloat" where
  "py_float str_float JNull = Inl TypeError"
| "py_float str_float (JBool b) = Inr (Fin (if b then 1 else 0))"
| "py_float str_float (JInt n) =
     (if FLOAT_INT_LIMIT \<le> \<bar>n\<bar> then Inl OverflowError else Inr (Fin (of_int n)))"
| "py_float str_float (JFloat f) = Inr f"
| "py_float str_float (JStr s) =
     (case str_float s of None \<Rightarrow> Inl ValueError | Some f \<Rightarrow> Inr f)"
| "py_float str_float (JArr xs) = Inl TypeError"
| "py_float str_float (JObj kvs) = Inl TypeError"

text \<open>Float arithmetic with a finite right operand, and \<open>math.floor\<close>.\<close>

definition float_mod :: "real \<Rightarrow> real \<Rightarrow> real" where
  "float_mod a b = a - b * of_int \<lfloor>a / b\<rfloor>"

fun py_mod :: "pyfloat \<Rightarrow> real \<Rightarrow> pyfloat" where
  "py_mod (Fin a) b = Fin (float_mod a b)"
| "py_mod PInf b = NaN"
| "py_mod NInf b = NaN"
| "py_mod NaN b = NaN"

fun py_add :: "pyfloat \<Rightarrow> real \<Rightarrow> pyfloat" where
  "py_add (Fin a) b = Fin (a + b)"
| "py_add PInf b = PInf"
| "py_add NInf b = NInf"
| "py_add NaN b = NaN"

text \<open>Division by a positive finite float.\<close>

fun py_div :: "pyfloat \<Rightarrow> real \<Rightarrow> pyfloat" where
  "py_div (Fin a) b = Fin (a / b)"
| "py_div PInf b = PInf"
| "py_div NInf b = NInf"
| "py_div NaN b = NaN"

fun math_floor :: "pyfloat \<Rightarrow> py_error + int" where
  "math_floor (Fin a) = Inr \<lfloor>a\<rfloor>"
| "math_floor PInf = Inl OverflowError"
| "math_floor NInf = Inl OverflowError"
| "math_floor NaN = Inl ValueError"

text \<open>\<open>str(n)\<close> for an integer: decimal digits, with a minus sign when negative.\<close>

definition digit_char :: "nat \<Rightarrow> char" where
  "digit_char d = ''0123456789'' ! d"

fun str_nat :: "nat \<Rightarrow> string" where
  "str_nat n = (if n < 10 then [digit_char n] else str_nat (n div 10) @ [digit_char (n mod 10)])"

declare str_nat.simps [simp del]

definition str_int :: "int \<Rightarrow> string" where
  "str_int i = (if i < 0 then CHR ''-'' # str_nat (nat (- i)) else str_nat (nat i))"

text \<open>Reading decimal digits back.\<close>

definition digit_val :: "char \<Rightarrow> nat" where
  "digit_val c = of_char c - 48"

definition nat_of_str :: "string \<Rightarrow> nat" where
  "nat_of_str s = foldl (\<lambda>acc c. acc * 10 + digit_val c) 0 s"

text \<open>\<open>s.strip()\<close> on an ASCII string.\<close>

definition is_space :: "char \<Rightarrow> bool" where
  "is_space c = (c \<in> set [CHR 0x09, CHR 0x0A, CHR 0x0B, CHR 0x0C, CHR 0x0D,
                           CHR 0x1C, CHR 0x1D, CHR 0x1E, CHR 0x1F, CHR 0x20])"

definition py_strip :: "string \<Rightarrow> string" where
  "py_strip s = rev (dropWhile is_space (rev (dropWhile is_space s)))"


section \<open>Tiler (tile_data_py.py)\<close>

definition TILE_DEG :: real where
  "TILE_DEG = 4"

definition OUTDIR :: string where
  "OUTDIR = ''data/tiles''"




definition tile_x :: "pyfloat \<Rightarrow> py_error + int" where
  "tile_x ra = math_floor (py_div (py_mod (py_add (py_mod ra 360) 360) 360) TILE_DEG)"

definition tile_y :: "pyfloat \<Rightarrow> py_error + int" where
  "tile_y dec = math_floor (py_div (py_add dec 90) TILE_DEG)"

definition tile_key :: "int \<Rightarrow> int \<Rightarrow> string" where
  "tile_key tx ty = str_int tx @ ''_'' @ str_int ty"

text \<open>
  One pass of the loop body. \<open>loads\<close> is \<open>json.loads\<close> (\<open>None\<close> when it raises).
  The result is \<open>Inr None\<close> for \<open>continue\<close>, \<open>Inr (Some (key, obj))\<close> for
  \<open>tiles[key].append(obj)\<close>, and \<open>Inl e\<close> for an exception that no handler catches.
  \<open>tile_obj\<close> is the body after the first \<open>try\<close>.
\<close>

definition tile_obj ::
  "(string \<Rightarrow> pyfloat option) \<Rightarrow> json \<Rightarrow> py_error + (string \<times> json) option" where
  "tile_obj str_float obj =
     (case dict_get obj ''ra'' of
        Inl e \<Rightarrow> Inl e
      | Inr ra \<Rightarrow>
         (case dict_get obj ''dec'' of
            Inl e \<Rightarrow> Inl e
          | Inr dec \<Rightarrow>
             if ra = JNull \<or> dec = JNull then Inr None
             else
               (case py_float str_float ra of
                  Inl e \<Rightarrow> Inr None
                | Inr ra' \<Rightarrow>
                   (case py_float str_float dec of
                      Inl e \<Rightarrow> Inr None
                    | Inr dec' \<Rightarrow>
                       (case tile_x ra' of
                          Inl e \<Rightarrow> Inl e
                        | Inr tx \<Rightarrow>
                           (case tile_y dec' of
                              Inl e \<Rightarrow> Inl e
                            | Inr ty \<Rightarrow> Inr (Some (tile_key tx ty, obj))))))))"

definition tile_line ::
  "(string \<Rightarrow> json option) \<Rightarrow> (string \<Rightarrow> pyfloat option) \<Rightarrow> string
     \<Rightarrow> py_error + (string \<times> json) option" where
  "tile_line loads str_float line =
     (case loads line of
        None \<Rightarrow> Inr None
      | Some obj \<Rightarrow> tile_obj str_float obj)"

text \<open>
  \<open>tiles\<close> is a \<open>defaultdict(list)\<close>; a dict keeps its keys in insertion order, so it is
  an association list in which a new key goes to the end.
\<close>

type_synonym tiles = "(string \<times> json list) list"

fun tiles_append :: "tiles \<Rightarrow> string \<Rightarrow> json \<Rightarrow> tiles" where
  "tiles_append [] k v = [(k, [v])]"
| "tiles_append ((k', vs) # rest) k v =
     (if k' = k then (k', vs @ [v]) # rest else (k', vs) # tiles_append rest k v)"

fun tiler_loop ::
  "(string \<Rightarrow> json option) \<Rightarrow> (string \<Rightarrow> pyfloat option) \<Rightarrow> string list \<Rightarrow> tiles
     \<Rightarrow> py_error + tiles" where
  "tiler_loop loads str_float [] tiles = Inr tiles"
| "tiler_loop loads str_float (line # rest) tiles =
     (case tile_line loads str_float line of
        Inl e \<Rightarrow> Inl e
      | Inr None \<Rightarrow> tiler_loop loads str_float rest tiles
      | Inr (Some (k, obj)) \<Rightarrow> tiler_loop loads str_float rest (tiles_append tiles k obj))"

text \<open>\<open>lines = [line.strip() for line in fh if line.strip()]\<close>, then the loop from no tiles.\<close>

definition read_lines :: "string list \<Rightarrow> string list" where
  "read_lines raw = map py_strip (filter (\<lambda>line. py_strip line \<noteq> []) raw)"

definition tiler ::
  "(string \<Rightarrow> json option) \<Rightarrow> (string \<Rightarrow> pyfloat option) \<Rightarrow> string list \<Rightarrow> py_error + tiles" where
  "tiler loads str_float raw = tiler_loop loads str_float (read_lines raw) []"


text \<open>
  What the partition is measured against: the records the loop appends, in input order,
  each with its key (the lines on which the body reaches \<open>tiles[key].append(obj)\<close>);
  the content a key should have; and all tile contents as one multiset.
\<close>

definition valid_records ::
  "(string \<Rightarrow> json option) \<Rightarrow> (string \<Rightarrow> pyfloat option) \<Rightarrow> string list
     \<Rightarrow> (string \<times> json) list" where
  "valid_records loads str_float lines =
     concat (map (\<lambda>line. case tile_line loads str_float line of
                            Inl e \<Rightarrow> []
                          | Inr None \<Rightarrow> []
                          | Inr (Some kv) \<Rightarrow> [kv]) lines)"

definition tile_content :: "string \<Rightarrow> (string \<times> json) list \<Rightarrow> json list" where
  "tile_content k kvs = map snd (filter (\<lambda>kv. fst kv = k) kvs)"

definition tiles_mset :: "tiles \<Rightarrow> json multiset" where
  "tiles_mset t = sum_list (map (\<lambda>kv. mset (snd kv)) t)"

text \<open>The loop as a fold of \<open>tiles_append\<close>, and its invariant.\<close>

definition appends :: "tiles \<Rightarrow> (string \<times> json) list \<Rightarrow> tiles" where
  "appends t kvs = foldl (\<lambda>t kv. tiles_append t (fst kv) (snd kv)) t kvs"

definition grouped :: "tiles \<Rightarrow> (string \<times> json) list \<Rightarrow> bool" where
  "grouped t kvs \<longleftrightarrow>
     distinct (map fst t)
     \<and> (\<forall>k. map_of t k = (if tile_content k kvs = [] then None else Some (tile_content k kvs)))
     \<and> tiles_mset t = mset (map snd kvs)"

text \<open>
  The write loop. \<open>os.path.join\<close> is the POSIX one; \<open>dumps\<close> is
  \<open>json.dumps(x, default=str)\<close>; \<open>utf8\<close> is the codec of both the text-mode write and
  \<open>plain.encode("utf8")\<close> (no newline translation); \<open>gzip n\<close> is what \<open>gzip.open(...).write\<close>
  leaves in the n-th file (the header carries a time stamp, so the bytes may differ from
  file to file). The file system is a map from paths to contents.
\<close>

definition path_join :: "string \<Rightarrow> string \<Rightarrow> string" where
  "path_join a b =
     (if b \<noteq> [] \<and> hd b = CHR ''/'' then b
      else if a = [] \<or> last a = CHR ''/'' then a @ b
      else a @ ''/'' @ b)"

fun join :: "string \<Rightarrow> string list \<Rightarrow> string" where
  "join sep [] = []"
| "join sep [x] = x"
| "join sep (x # y # ys) = x @ sep @ join sep (y # ys)"

definition plain_of :: "(json \<Rightarrow> string) \<Rightarrow> json list \<Rightarrow> string" where
  "plain_of dumps arr = join [CHR 0x0A] (map dumps arr) @ [CHR 0x0A]"

definition path_plain_of :: "string \<Rightarrow> string" where
  "path_plain_of key = path_join OUTDIR (key @ ''.ndjson'')"

definition path_gz_of :: "string \<Rightarrow> string" where
  "path_gz_of key = path_plain_of key @ ''.gz''"

type_synonym files = "string \<rightharpoonup> string"

fun write_tiles ::
  "(json \<Rightarrow> string) \<Rightarrow> (string \<Rightarrow> string) \<Rightarrow> (nat \<Rightarrow> string \<Rightarrow> string)
     \<Rightarrow> tiles \<Rightarrow> files \<times> nat \<Rightarrow> files \<times> nat" where
  "write_tiles dumps utf8 gzip [] (fs, written) = (fs, written)"
| "write_tiles dumps utf8 gzip ((key, arr) # rest) (fs, written) =
     (let plain = plain_of dumps arr;
          path_plain = path_plain_of key;
          fs1 = fs(path_plain \<mapsto> utf8 plain);
          path_gz = path_plain @ ''.gz'';
          fs2 = fs1(path_gz \<mapsto> gzip written (utf8 plain))
      in write_tiles dumps utf8 gzip rest (fs2, written + 1))"

definition tiler_main ::
  "(string \<Rightarrow> json option) \<Rightarrow> (string \<Rightarrow> pyfloat option) \<Rightarrow> (json \<Rightarrow> string)
     \<Rightarrow> (string \<Rightarrow> string) \<Rightarrow> (nat \<Rightarrow> string \<Rightarrow> string)
     \<Rightarrow> string list \<Rightarrow> files \<Rightarrow> py_error + files \<times> nat" where
  "tiler_main loads str_float dumps utf8 gzip raw fs =
     (case tiler loads str_float raw of
        Inl e \<Rightarrow> Inl e
      | Inr tiles \<Rightarrow> Inr (write_tiles dumps utf8 gzip tiles (fs, 0)))"

text \<open>
  Fixtures for the closed examples: a finite excerpt of \<open>json.loads\<close>, of \<open>float\<close> on
  strings and of \<open>json.dumps\<close>, and a toy codec with a header byte.
\<close>

definition sample_loads :: \<open>string \<Rightarrow> json option\<close> where
  \<open>sample_loads s =
     (if s = ''{"hip": 2, "ra": -10.0, "dec": -90.0}'' then
        Some (JObj [(''hip'', JInt 2), (''ra'', JFloat (Fin (- 10))), (''dec'', JFloat (Fin (- 90)))])
      else if s = ''{"hip": 1, "ra": 361.0, "dec": 95.0}'' then
        Some (JObj [(''hip'', JInt 1), (''ra'', JFloat (Fin 361)), (''dec'', JFloat (Fin 95))])
      else if s = ''{"hip": 7, "ra": "350", "dec": -90}'' then
        Some (JObj [(''hip'', JInt 7), (''ra'', JStr ''350''), (''dec'', JInt (- 90))])
      else if s = ''{"hip": 4, "ra": 12.5}'' then
        Some (JObj [(''hip'', JInt 4), (''ra'', JFloat (Fin (25 / 2)))])
      else if s = ''{"hip": 5, "ra": "north", "dec": 1}'' then
        Some (JObj [(''hip'', JInt 5), (''ra'', JStr ''north''), (''dec'', JInt 1)])
      else if s = ''{"hip": 6, "ra": NaN, "dec": 0.0}'' then
        Some (JObj [(''hip'', JInt 6), (''ra'', JFloat NaN), (''dec'', JFloat (Fin 0))])
      else if s = ''{"hip": 8, "ra": "nan", "dec": 0.0}'' then
        Some (JObj [(''hip'', JInt 8), (''ra'', JStr ''nan''), (''dec'', JFloat (Fin 0))])
      else if s = ''{"hip": 2, "name": "old", "dec": 5}'' then
        Some (JObj [(''hip'', JInt 2), (''name'', JStr ''old''), (''dec'', JInt 5)])
      else if s = ''null'' then Some JNull
      else if s = ''[]'' then Some (JArr [])
      else None)\<close>

definition sample_str_float :: "string \<Rightarrow> pyfloat option" where
  "sample_str_float s =
     (if s = ''350'' then Some (Fin 350)
      else if s = ''nan'' then Some NaN
      else None)"

definition sample_dumps :: \<open>json \<Rightarrow> string\<close> where
  \<open>sample_dumps j =
     (if j = JObj [(''hip'', JInt 2), (''ra'', JFloat (Fin (- 10))), (''dec'', JFloat (Fin (- 90)))]
      then ''{"hip": 2, "ra": -10.0, "dec": -90.0}''
      else if j = JObj [(''hip'', JInt 7), (''ra'', JStr ''350''), (''dec'', JInt (- 90))]
      then ''{"hip": 7, "ra": "350", "dec": -90}''
      else if j = JObj [(''hip'', JInt 1), (''ra'', JFloat (Fin 361)), (''dec'', JFloat (Fin 95))]
      then ''{"hip": 1, "ra": 361.0, "dec": 95.0}''
      else ''null'')\<close>

definition sample_gzip :: "nat \<Rightarrow> string \<Rightarrow> string" where
  "sample_gzip n b = digit_char (n mod 10) # rev b"

definition sample_gunzip :: "string \<Rightarrow> string" where
  "sample_gunzip g = rev (tl g)"

definition sample_raw :: \<open>string list\<close> where
  \<open>sample_raw =
     [''{"hip": 2, "ra": -10.0, "dec": -90.0}'',
      ''not json'',
      ''   '',
      ''{"hip": 1, "ra": 361.0, "dec": 95.0}'',
      ''{"hip": 4, "ra": 12.5}'',
      ''  {"hip": 7, "ra": "350", "dec": -90}  '',
      ''{"hip": 5, "ra": "north", "dec": 1}'']\<close>

definition sample_tiles :: tiles where
  "sample_tiles =
     [(''87_0'',
       [JObj [(''hip'', JInt 2), (''ra'', JFloat (Fin (- 10))), (''dec'', JFloat (Fin (- 90)))],
        JObj [(''hip'', JInt 7), (''ra'', JStr ''350''), (''dec'', JInt (- 90))]]),
      (''0_46'', [JObj [(''hip'', JInt 1), (''ra'', JFloat (Fin 361)), (''dec'', JFloat (Fin 95))]])]"

definition sample_plain :: \<open>string\<close> where
  \<open>sample_plain = ''{"hip": 2, "ra": -10.0, "dec": -90.0}'' @ [CHR 0x0A]
                    @ ''{"hip": 7, "ra": "350", "dec": -90}'' @ [CHR 0x0A]\<close>


section \<open>Tiler: the index formulas\<close>










section \<open>Tiler: tile keys name their index pair\<close>

lemma digit_char_inj: "a < 10 \<Longrightarrow> b < 10 \<Longrightarrow> digit_char a = digit_char b \<Longrightarrow> a = b"
proof -
  assume a: "a < 10" and b: "b < 10" and e: "digit_char a = digit_char b"
  have d: "distinct ''0123456789''" by simp
  have l: "length ''0123456789'' = 10" by simp
  show ?thesis using nth_eq_iff_index_eq [OF d, of a b] a b e l
    unfolding digit_char_def by metis
qed

lemma digit_char_in: "d < 10 \<Longrightarrow> digit_char d \<in> set ''0123456789''"
  unfolding digit_char_def by (rule nth_mem) simp

lemma str_nat_digits: "set (str_nat n) \<subseteq> set ''0123456789''"
proof (induction n rule: str_nat.induct)
  case (1 n)
  show ?case
  proof (cases "n < 10")
    case True
    then show ?thesis using digit_char_in [of n] by (subst str_nat.simps) simp
  next
    case False
    have "n mod 10 < 10" by simp
    then have "digit_char (n mod 10) \<in> set ''0123456789''" by (rule digit_char_in)
    with False 1 show ?thesis by (subst str_nat.simps) simp
  qed
qed

lemma str_nat_nonempty: "str_nat n \<noteq> []"
  by (subst str_nat.simps) simp










section \<open>Tiler: the tiles partition the valid records\<close>

lemma map_of_tiles_append:
  "map_of (tiles_append t k v) =
     (map_of t)(k \<mapsto> (case map_of t k of None \<Rightarrow> [v] | Some vs \<Rightarrow> vs @ [v]))"
  by (induction t) (auto simp: fun_eq_iff)

lemma keys_tiles_append:
  "map fst (tiles_append t k v) = (if k \<in> set (map fst t) then map fst t else map fst t @ [k])"
proof (induction t)
  case Nil
  show ?case by simp
next
  case (Cons kv t)
  obtain k' vs where kv: "kv = (k', vs)" by (cases kv)
  show ?case
  proof (cases "k' = k")
    case True
    then show ?thesis by (simp add: kv)
  next
    case False
    with Cons.IH show ?thesis by (simp add: kv)
  qed
qed

lemma distinct_tiles_append:
  "distinct (map fst t) \<Longrightarrow> distinct (map fst (tiles_append t k v))"
  by (simp add: keys_tiles_append)

lemma mset_tiles_append: "tiles_mset (tiles_append t k v) = tiles_mset t + {#v#}"
  by (induction t) (auto simp: tiles_mset_def)

lemma tile_content_snoc:
  "tile_content k' (kvs @ [(k, v)]) = tile_content k' kvs @ (if k = k' then [v] else [])"
  by (simp add: tile_content_def)

lemma grouped_empty: "grouped [] []"
  by (simp add: grouped_def tile_content_def tiles_mset_def)

lemma grouped_step:
  assumes "grouped t kvs"
  shows "grouped (tiles_append t k v) (kvs @ [(k, v)])"
proof -
  from assms have d: "distinct (map fst t)"
    and m: "\<And>k'. map_of t k' = (if tile_content k' kvs = [] then None else Some (tile_content k' kvs))"
    and s: "tiles_mset t = mset (map snd kvs)"
    by (simp_all add: grouped_def)
  have "map_of (tiles_append t k v) k' =
          (if tile_content k' (kvs @ [(k, v)]) = [] then None
           else Some (tile_content k' (kvs @ [(k, v)])))" for k'
    by (simp add: map_of_tiles_append m tile_content_snoc)
  moreover have "tiles_mset (tiles_append t k v) = mset (map snd (kvs @ [(k, v)]))"
    by (simp add: mset_tiles_append s)
  ultimately show ?thesis
    using distinct_tiles_append [OF d] unfolding grouped_def by blast
qed

lemma grouped_appends: "grouped t done \<Longrightarrow> grouped (appends t kvs) (done @ kvs)"
proof (induction kvs arbitrary: t "done")
  case Nil
  then show ?case by (simp add: appends_def)
next
  case (Cons kv kvs)
  obtain k v where kv: "kv = (k, v)" by (cases kv)
  from Cons.prems have "grouped (tiles_append t k v) (done @ [(k, v)])"
    by (rule grouped_step)
  then have "grouped (appends (tiles_append t k v) kvs) ((done @ [(k, v)]) @ kvs)"
    by (rule Cons.IH)
  then show ?case by (simp add: appends_def kv)
qed

lemma tiler_loop_appends:
  "tiler_loop loads sf lines t = Inr t' \<Longrightarrow> t' = appends t (valid_records loads sf lines)"
proof (induction lines arbitrary: t)
  case Nil
  then show ?case by (simp add: appends_def valid_records_def)
next
  case (Cons line lines)
  show ?case
  proof (cases "tile_line loads sf line")
    case (Inl e)
    with Cons.prems show ?thesis by simp
  next
    case (Inr r)
    show ?thesis
    proof (cases r)
      case None
      with Inr Cons.prems have "tiler_loop loads sf lines t = Inr t'" by simp
      then have "t' = appends t (valid_records loads sf lines)" by (rule Cons.IH)
      with Inr None show ?thesis by (simp add: valid_records_def)
    next
      case (Some kv)
      obtain k v where kv: "kv = (k, v)" by (cases kv)
      with Inr Some Cons.prems have "tiler_loop loads sf lines (tiles_append t k v) = Inr t'" by simp
      then have "t' = appends (tiles_append t k v) (valid_records loads sf lines)" by (rule Cons.IH)
      with Inr Some kv show ?thesis by (simp add: valid_records_def appends_def)
    qed
  qed
qed

lemma tiler_loop_total:
  "(\<And>line. line \<in> set lines \<Longrightarrow> \<exists>r. tile_line loads sf line = Inr r)
     \<Longrightarrow> \<exists>t'. tiler_loop loads sf lines t = Inr t'"
proof (induction lines arbitrary: t)
  case Nil
  show ?case by simp
next
  case (Cons line lines)
  from Cons.prems obtain r where r: "tile_line loads sf line = Inr r" by auto
  have ih: "\<exists>t'. tiler_loop loads sf lines u = Inr t'" for u
    using Cons.IH Cons.prems by simp
  show ?case
  proof (cases r)
    case None
    with r ih show ?thesis by simp
  next
    case (Some kv)
    with r ih show ?thesis by (cases kv) simp
  qed
qed

lemma valid_key_of_obj:
  assumes "(k, obj) \<in> set (valid_records loads sf lines)"
  shows "tile_obj sf obj = Inr (Some (k, obj))"
proof -
  from assms obtain line where "line \<in> set lines"
    and "(k, obj) \<in> set (case tile_line loads sf line of Inl e \<Rightarrow> [] | Inr None \<Rightarrow> [] | Inr (Some kv) \<Rightarrow> [kv])"
    by (auto simp: valid_records_def)
  then have tl: "tile_line loads sf line = Inr (Some (k, obj))"
    by (auto split: sum.splits option.splits)
  then obtain o' where o': "loads line = Some o'" and t: "tile_obj sf o' = Inr (Some (k, obj))"
    by (auto simp: tile_line_def split: option.splits)
  from t have "o' = obj"
    by (auto simp: tile_obj_def split: sum.splits if_splits)
  with t show ?thesis by simp
qed

lemma tile_obj_key:
  "tile_obj sf obj = Inr (Some (k, v)) \<Longrightarrow> \<exists>tx ty. k = tile_key tx ty"
  by (auto simp: tile_obj_def split: sum.splits if_splits)

lemma tiler_grouped:
  assumes "tiler loads sf raw = Inr tiles"
  shows "grouped tiles (valid_records loads sf (read_lines raw))"
proof -
  let ?V = "valid_records loads sf (read_lines raw)"
  from assms have "tiles = appends [] ?V"
    unfolding tiler_def by (rule tiler_loop_appends)
  moreover have "grouped (appends [] ?V) ([] @ ?V)"
    using grouped_empty by (rule grouped_appends)
  ultimately show ?thesis by simp
qed



text \<open>The fixtures, run: two tiles from seven raw lines, five of them dropped.\<close>

lemmas tiler_eval = tiler_def read_lines_def py_strip_def is_space_def tile_line_def tile_obj_def
  tile_x_def tile_y_def tile_key_def str_int_def str_nat.simps digit_char_def
  float_mod_def TILE_DEG_def sample_loads_def sample_str_float_def FLOAT_INT_LIMIT_def

lemma sample_run: "tiler sample_loads sample_str_float sample_raw = Inr sample_tiles"
  by (simp add: tiler_eval sample_raw_def sample_tiles_def)



section \<open>Tiler: bad input lines\<close>

text \<open>
  The three guarded cases leave no trace: a line that does not parse, a record without
  ra or dec (or with a null one), and a record whose ra or dec \<open>float\<close> rejects are
  skipped, and the loop goes on as if the line were not there.
\<close>

lemma tile_line_skips:
  "loads line = None \<Longrightarrow> tile_line loads sf line = Inr None"
  "loads line = Some (JObj kvs) \<Longrightarrow> map_of kvs ''ra'' = None \<or> map_of kvs ''dec'' = None
      \<or> map_of kvs ''ra'' = Some JNull \<or> map_of kvs ''dec'' = Some JNull
     \<Longrightarrow> tile_line loads sf line = Inr None"
  "loads line = Some (JObj kvs) \<Longrightarrow> map_of kvs ''ra'' = Some ra \<Longrightarrow> map_of kvs ''dec'' = Some dec
     \<Longrightarrow> py_float sf ra = Inl e \<or> py_float sf dec = Inl e
     \<Longrightarrow> tile_line loads sf line = Inr None"
  by (auto simp: tile_line_def tile_obj_def split: sum.splits option.splits)

lemma tiler_loop_skip:
  "tile_line loads sf line = Inr None \<Longrightarrow>
   tiler_loop loads sf (pre @ line # post) t = tiler_loop loads sf (pre @ post) t"
  by (induction pre arbitrary: t) (auto split: sum.splits option.splits)


text \<open>
  Claim C7 says more: that no input line makes the Tiler fail. Two kinds of line do.
  A line that is valid JSON but not an object (\<open>null\<close>, \<open>[]\<close>) has no \<open>get\<close>, and
  a record whose ra is a NaN (the literal \<open>NaN\<close>, which \<open>json.loads\<close> accepts, or the
  string \<open>"nan"\<close>, which \<open>float\<close> accepts) reaches \<open>math.floor\<close>; both exceptions are
  raised outside the two \<open>try\<close> blocks, and the run ends without any tile.
\<close>

theorem C7_tiler_raises_on_non_object_line:
  \<open>tiler sample_loads sample_str_float
      [''{"hip": 2, "ra": -10.0, "dec": -90.0}'', ''null''] = Inl AttributeError
   \<and> tiler sample_loads sample_str_float
      [''{"hip": 2, "ra": -10.0, "dec": -90.0}'', ''[]''] = Inl AttributeError
   \<and> tiler sample_loads sample_str_float
      [''{"hip": 2, "ra": -10.0, "dec": -90.0}'', ''{"hip": 6, "ra": NaN, "dec": 0.0}''] = Inl ValueError
   \<and> tiler sample_loads sample_str_float
      [''{"hip": 2, "ra": -10.0, "dec": -90.0}'', ''{"hip": 8, "ra": "nan", "dec": 0.0}''] = Inl ValueError\<close>
  by (simp add: tiler_eval)


section \<open>Tiler: the two files of a tile\<close>

lemma path_join_OUTDIR:
  "path_join OUTDIR b = (if b \<noteq> [] \<and> hd b = CHR ''/'' then b else ''data/tiles/'' @ b)"
  by (simp add: path_join_def OUTDIR_def)

lemma path_join_OUTDIR_inj:
  assumes "path_join OUTDIR b = path_join OUTDIR b'"
  shows "b = b'"
proof -
  have abs: "path_join OUTDIR c = c" if "c \<noteq> [] \<and> hd c = CHR ''/''" for c
    using that by (simp add: path_join_OUTDIR)
  have rel: "path_join OUTDIR c = ''data/tiles/'' @ c" if "\<not> (c \<noteq> [] \<and> hd c = CHR ''/'')" for c
    using that by (simp add: path_join_OUTDIR)
  have no: "\<not> (c \<noteq> [] \<and> hd c = CHR ''/'')" if "c = ''data/tiles/'' @ c'" for c c'
    using that by simp
  show ?thesis
  proof (cases "b \<noteq> [] \<and> hd b = CHR ''/''")
    case True
    show ?thesis
    proof (cases "b' \<noteq> [] \<and> hd b' = CHR ''/''")
      case b': True
      from assms show ?thesis by (simp only: abs [OF True] abs [OF b'])
    next
      case False
      from assms have "b = ''data/tiles/'' @ b'" by (simp only: abs [OF True] rel [OF False])
      with True no show ?thesis by blast
    qed
  next
    case False
    show ?thesis
    proof (cases "b' \<noteq> [] \<and> hd b' = CHR ''/''")
      case True
      from assms have "b' = ''data/tiles/'' @ b" by (simp only: abs [OF True] rel [OF False])
      with True no show ?thesis by blast
    next
      case b': False
      from assms have "''data/tiles/'' @ b = ''data/tiles/'' @ b'"
        by (simp only: rel [OF False] rel [OF b'])
      then show ?thesis by simp
    qed
  qed
qed

lemma path_plain_inj: "path_plain_of k = path_plain_of k' \<Longrightarrow> k = k'"
  unfolding path_plain_of_def by (drule path_join_OUTDIR_inj) simp

lemma path_gz_inj: "path_gz_of k = path_gz_of k' \<Longrightarrow> k = k'"
  unfolding path_gz_of_def by (simp add: path_plain_inj)

lemma last_path_plain: "last (path_plain_of k) = CHR ''n''"
  by (simp add: path_plain_of_def path_join_OUTDIR)

lemma last_path_gz: "last (path_gz_of k) = CHR ''z''"
  by (simp add: path_gz_of_def)

lemma path_plain_neq_gz: "path_plain_of k \<noteq> path_gz_of k'"
proof
  assume "path_plain_of k = path_gz_of k'"
  then have "last (path_plain_of k) = last (path_gz_of k')" by simp
  then show False by (simp add: last_path_plain last_path_gz)
qed

lemma write_tiles_frame:
  assumes "write_tiles dumps utf8 gzip tiles (fs0, w0) = (fs, w)"
    and "p \<notin> path_plain_of ` set (map fst tiles)" and "p \<notin> path_gz_of ` set (map fst tiles)"
  shows "fs p = fs0 p"
  using assms
proof (induction tiles arbitrary: fs0 w0)
  case Nil
  then show ?case by simp
next
  case (Cons kv tiles)
  obtain key arr where kv: "kv = (key, arr)" by (cases kv)
  let ?fs2 = "(fs0(path_plain_of key \<mapsto> utf8 (plain_of dumps arr)))
                (path_plain_of key @ ''.gz'' \<mapsto> gzip w0 (utf8 (plain_of dumps arr)))"
  from Cons.prems(1) have run: "write_tiles dumps utf8 gzip tiles (?fs2, w0 + 1) = (fs, w)"
    by (simp add: kv Let_def)
  from Cons.prems(2,3) have p: "p \<noteq> path_plain_of key" "p \<noteq> path_gz_of key"
    and rest: "p \<notin> path_plain_of ` set (map fst tiles)" "p \<notin> path_gz_of ` set (map fst tiles)"
    by (auto simp: kv)
  from Cons.IH [OF run rest] have "fs p = ?fs2 p" .
  with p show ?case by (simp add: path_gz_of_def)
qed

lemma write_tiles_count:
  "write_tiles dumps utf8 gzip tiles (fs0, w0) = (fs, w) \<Longrightarrow> w = w0 + length tiles"
proof (induction tiles arbitrary: fs0 w0)
  case Nil
  then show ?case by simp
next
  case (Cons kv tiles)
  obtain key arr where kv: "kv = (key, arr)" by (cases kv)
  from Cons.prems show ?case
    by (auto simp: kv Let_def dest!: Cons.IH)
qed

lemma write_tiles_files:
  assumes "write_tiles dumps utf8 gzip tiles (fs0, w0) = (fs, w)"
    and "distinct (map fst tiles)" and "(key, arr) \<in> set tiles"
  shows "fs (path_plain_of key) = Some (utf8 (plain_of dumps arr))
       \<and> (\<exists>n. fs (path_gz_of key) = Some (gzip n (utf8 (plain_of dumps arr))))"
  using assms
proof (induction tiles arbitrary: fs0 w0)
  case Nil
  then show ?case by simp
next
  case (Cons kv tiles)
  obtain k a where kv: "kv = (k, a)" by (cases kv)
  let ?fs2 = "(fs0(path_plain_of k \<mapsto> utf8 (plain_of dumps a)))
                (path_plain_of k @ ''.gz'' \<mapsto> gzip w0 (utf8 (plain_of dumps a)))"
  from Cons.prems(1) have run: "write_tiles dumps utf8 gzip tiles (?fs2, w0 + 1) = (fs, w)"
    by (simp add: kv Let_def)
  from Cons.prems(2) have d: "distinct (map fst tiles)" and fresh: "k \<notin> set (map fst tiles)"
    by (simp_all add: kv)
  show ?case
  proof (cases "(key, arr) \<in> set tiles")
    case True
    from Cons.IH [OF run d True] show ?thesis .
  next
    case False
    with Cons.prems(3) have eq: "key = k" "arr = a" by (simp_all add: kv)
    have np: "path_plain_of k \<notin> path_plain_of ` set (map fst tiles)"
      using fresh path_plain_inj by blast
    moreover have "path_plain_of k \<notin> path_gz_of ` set (map fst tiles)"
      using path_plain_neq_gz by blast
    ultimately have "fs (path_plain_of k) = ?fs2 (path_plain_of k)"
      by (rule write_tiles_frame [OF run])
    then have plain: "fs (path_plain_of k) = Some (utf8 (plain_of dumps a))"
      using path_plain_neq_gz [of k k] by (simp add: path_gz_of_def)
    have "path_gz_of k \<notin> path_plain_of ` set (map fst tiles)"
      using path_plain_neq_gz by (metis imageE)
    moreover have "path_gz_of k \<notin> path_gz_of ` set (map fst tiles)"
      using fresh path_gz_inj by blast
    ultimately have "fs (path_gz_of k) = ?fs2 (path_gz_of k)"
      by (rule write_tiles_frame [OF run])
    then have "fs (path_gz_of k) = Some (gzip w0 (utf8 (plain_of dumps a)))"
      by (simp add: path_gz_of_def)
    with plain eq show ?thesis by blast
  qed
qed

lemma hd_str_int: "str_int i \<noteq> [] \<and> hd (str_int i) \<noteq> CHR ''/''"
proof -
  have "hd (str_nat n) \<in> set (str_nat n)" for n
    using str_nat_nonempty by simp
  then have h: "hd (str_nat n) \<in> set ''0123456789''" for n
    using str_nat_digits by blast
  have nd: "CHR ''/'' \<notin> set ''0123456789''" by simp
  have "hd (str_nat n) \<noteq> CHR ''/''" for n
    using h [of n] nd by metis
  then show ?thesis
    by (simp add: str_int_def str_nat_nonempty)
qed

lemma path_plain_tile_key:
  "path_plain_of (tile_key tx ty) = OUTDIR @ ''/'' @ tile_key tx ty @ ''.ndjson''"
proof -
  have "str_int tx @ c \<noteq> []" and "hd (str_int tx @ c) \<noteq> CHR ''/''" for c
    using hd_str_int [of tx] by simp_all
  then have "path_join OUTDIR (tile_key tx ty @ ''.ndjson'')
               = ''data/tiles/'' @ tile_key tx ty @ ''.ndjson''"
    by (simp add: path_join_OUTDIR tile_key_def)
  then show ?thesis
    by (simp add: path_plain_of_def OUTDIR_def)
qed

text \<open>
  Claim C4. When the script runs to its end and the codec round-trips, every tile has
  two files, "<key>.ndjson" and "<key>.ndjson.gz" under the output directory: the plain
  file holds the encoded lines of the tile's records, one serialized record per line
  with a newline after the last, and decompressing the gzip file yields exactly the
  bytes of the plain file.
\<close>

theorem C4_gzip_round_trip:
  assumes codec: "\<forall>b n. gunzip (gzip n b) = b"
    and run: "tiler_main loads sf dumps utf8 gzip raw fs0 = Inr (fs, written)"
  shows "\<exists>tiles. tiler loads sf raw = Inr tiles \<and> written = length tiles
          \<and> (\<forall>(key, arr) \<in> set tiles.
                \<exists>plain gz. fs (OUTDIR @ ''/'' @ key @ ''.ndjson'') = Some plain
                    \<and> fs (OUTDIR @ ''/'' @ key @ ''.ndjson.gz'') = Some gz
                    \<and> plain = utf8 (plain_of dumps arr)
                    \<and> gunzip gz = plain)"
proof -
  let ?V = "valid_records loads sf (read_lines raw)"
  from run obtain tiles where t: "tiler loads sf raw = Inr tiles"
    and w: "write_tiles dumps utf8 gzip tiles (fs0, 0) = (fs, written)"
    by (auto simp: tiler_main_def split: sum.splits)
  from t have g: "grouped tiles ?V" by (rule tiler_grouped)
  then have d: "distinct (map fst tiles)"
    and m: "\<And>k. map_of tiles k = (if tile_content k ?V = [] then None else Some (tile_content k ?V))"
    by (simp_all add: grouped_def)
  have files: "\<exists>plain gz. fs (OUTDIR @ ''/'' @ key @ ''.ndjson'') = Some plain
                    \<and> fs (OUTDIR @ ''/'' @ key @ ''.ndjson.gz'') = Some gz
                    \<and> plain = utf8 (plain_of dumps arr)
                    \<and> gunzip gz = plain"
    if mem: "(key, arr) \<in> set tiles" for key arr
  proof -
    from d mem have "map_of tiles key = Some arr" by simp
    with m [of key] have "tile_content key ?V \<noteq> []" by (simp split: if_splits)
    then obtain obj where "(key, obj) \<in> set ?V"
      by (auto simp: tile_content_def filter_empty_conv)
    then have "tile_obj sf obj = Inr (Some (key, obj))" by (rule valid_key_of_obj)
    then obtain tx ty where key: "key = tile_key tx ty"
      using tile_obj_key by blast
    have pp: "path_plain_of key = OUTDIR @ ''/'' @ key @ ''.ndjson''"
      unfolding key by (rule path_plain_tile_key)
    then have pg: "path_gz_of key = OUTDIR @ ''/'' @ key @ ''.ndjson.gz''"
      by (simp add: path_gz_of_def)
    from write_tiles_files [OF w d mem] obtain n
      where "fs (path_plain_of key) = Some (utf8 (plain_of dumps arr))"
        and "fs (path_gz_of key) = Some (gzip n (utf8 (plain_of dumps arr)))"
      by blast
    with codec show ?thesis
      unfolding pp pg by simp
  qed
  from write_tiles_count [OF w] have "written = length tiles" by simp
  with t files show ?thesis by blast
qed

lemma sample_codec: "\<forall>b n. sample_gunzip (sample_gzip n b) = b"
  by (simp add: sample_gunzip_def sample_gzip_def)

theorem C4_gzip_round_trip_witness:
  "(\<forall>b n. sample_gunzip (sample_gzip n b) = b)
   \<and> (\<exists>fs written plain gz.
         tiler_main sample_loads sample_str_float sample_dumps (\<lambda>s. s) sample_gzip sample_raw Map.empty
           = Inr (fs, written)
         \<and> written = 2
         \<and> fs ''data/tiles/87_0.ndjson'' = Some plain
         \<and> fs ''data/tiles/87_0.ndjson.gz'' = Some gz
         \<and> plain = sample_plain
         \<and> sample_gunzip gz = plain)"
proof -
  obtain fs written where w:
    "write_tiles sample_dumps (\<lambda>s. s) sample_gzip sample_tiles (Map.empty, 0) = (fs, written)"
    by (cases "write_tiles sample_dumps (\<lambda>s. s) sample_gzip sample_tiles (Map.empty, 0)")
  have run: "tiler_main sample_loads sample_str_float sample_dumps (\<lambda>s. s) sample_gzip sample_raw Map.empty
           = Inr (fs, written)"
    by (simp add: tiler_main_def sample_run w)
  from C4_gzip_round_trip [OF sample_codec run] obtain tiles
    where t: "tiler sample_loads sample_str_float sample_raw = Inr tiles"
      and n: "written = length tiles"
      and f: "\<forall>(key, arr) \<in> set tiles.
                \<exists>plain gz. fs (OUTDIR @ ''/'' @ key @ ''.ndjson'') = Some plain
                    \<and> fs (OUTDIR @ ''/'' @ key @ ''.ndjson.gz'') = Some gz
                    \<and> plain = (\<lambda>s. s) (plain_of sample_dumps arr)
                    \<and> sample_gunzip gz = plain"
    by blast
  from t sample_run have tiles: "tiles = sample_tiles" by simp
  have "(''87_0'', snd (hd sample_tiles)) \<in> set tiles"
    by (simp add: tiles sample_tiles_def)
  with f obtain plain gz where
      "fs (OUTDIR @ ''/'' @ ''87_0'' @ ''.ndjson'') = Some plain"
      "fs (OUTDIR @ ''/'' @ ''87_0'' @ ''.ndjson.gz'') = Some gz"
      "plain = plain_of sample_dumps (snd (hd sample_tiles))"
      "sample_gunzip gz = plain"
    by fastforce
  then have "fs ''data/tiles/87_0.ndjson'' = Some plain
         \<and> fs ''data/tiles/87_0.ndjson.gz'' = Some gz
         \<and> plain = sample_plain
         \<and> sample_gunzip gz = plain"
    by (simp add: OUTDIR_def plain_of_def sample_tiles_def sample_dumps_def sample_plain_def)
  moreover have "written = 2"
    by (simp add: n tiles sample_tiles_def)
  ultimately show ?thesis
    using run sample_codec by blast
qed


section \<open>Normalizer (fetch_hipparcos_vizier.py)\<close>

text \<open>
  A row of the fetched table after \<open>pd.to_numeric(..., errors='coerce')\<close>: a numeric
  cell is a real number or missing (\<open>None\<close> stands for NaN and for an absent column).
  \<open>RA\<close> and \<open>DE\<close> are the coordinate columns the function selects.
\<close>

record raw_row =
  HIP :: "int option"
  RA :: "real option"
  DE :: "real option"
  Vmag :: "real option"
  Plx :: "real option"
  BV :: "real option"
  SpType :: "string option"

record star_record =
  hip :: "int option"
  ra :: "real option"
  dec :: "real option"
  dist_pc :: "real option"
  vmag :: "real option"
  plx :: "real option"
  bv :: "real option"
  sp_type :: "string option"
  absmag :: "real option"
  temp_k :: "real option"

text \<open>\<open>lambda p: 1000.0/p if pd.notna(p) and p>0 else None\<close>\<close>

definition dist_of_plx :: "real option \<Rightarrow> real option" where
  "dist_of_plx p = (case p of None \<Rightarrow> None | Some x \<Rightarrow> if 0 < x then Some (1000 / x) else None)"

definition compute_absmag :: "real option \<Rightarrow> real option \<Rightarrow> real option" where
  "compute_absmag d m =
     (case d of
        None \<Rightarrow> None
      | Some dv \<Rightarrow>
         (case m of
            None \<Rightarrow> None
          | Some mv \<Rightarrow> if 0 < dv then Some (mv - 5 * (log 10 dv - 1)) else None))"

text \<open>The bare \<open>except\<close> turns the division by zero into \<open>None\<close>.\<close>

definition bv_to_temp :: "real option \<Rightarrow> real option" where
  "bv_to_temp b =
     (case b of
        None \<Rightarrow> None
      | Some x \<Rightarrow>
         if 92 / 100 * x + 17 / 10 = 0 \<or> 92 / 100 * x + 62 / 100 = 0 then None
         else Some (4600 * (1 / (92 / 100 * x + 17 / 10) + 1 / (92 / 100 * x + 62 / 100))))"

text \<open>\<open>astype(str).fillna('').replace('nan','').str.strip()\<close>: a missing cell prints as \<open>nan\<close>.\<close>

definition clean_sp_type :: "string option \<Rightarrow> string" where
  "clean_sp_type s =
     (case s of None \<Rightarrow> [] | Some t \<Rightarrow> py_strip (if t = ''nan'' then [] else t))"

definition normalize_row :: "raw_row \<Rightarrow> star_record" where
  "normalize_row row =
     (let d = dist_of_plx (Plx row) in
      \<lparr> hip = HIP row, ra = RA row, dec = DE row, dist_pc = d, vmag = Vmag row,
        plx = Plx row, bv = BV row, sp_type = Some (clean_sp_type (SpType row)),
        absmag = compute_absmag d (Vmag row), temp_k = bv_to_temp (BV row) \<rparr>)"

text \<open>\<open>df_out.dropna(subset=['ra','dec','vmag'])\<close>\<close>

definition normalize_and_compute :: "raw_row list \<Rightarrow> star_record list" where
  "normalize_and_compute df =
     filter (\<lambda>r. ra r \<noteq> None \<and> dec r \<noteq> None \<and> vmag r \<noteq> None) (map normalize_row df)"

text \<open>A small table for the closed example.\<close>

definition sample_df :: "raw_row list" where
  "sample_df =
     [\<lparr> HIP = Some 1, RA = Some 10, DE = Some 20, Vmag = Some 5, Plx = Some 10,
        BV = Some (1 / 2), SpType = Some ''G2V '' \<rparr>,
      \<lparr> HIP = Some 2, RA = Some 11, DE = Some 21, Vmag = Some 6, Plx = Some (- 3),
        BV = Some (1 / 2), SpType = None \<rparr>,
      \<lparr> HIP = Some 3, RA = Some 12, DE = Some 22, Vmag = Some 7, Plx = None,
        BV = Some 0, SpType = Some ''nan'' \<rparr>,
      \<lparr> HIP = Some 4, RA = None, DE = Some 23, Vmag = Some 8, Plx = Some 4,
        BV = None, SpType = None \<rparr>]"

lemma normalize_row_fields:
  "plx (normalize_row row) = Plx row"
  "vmag (normalize_row row) = Vmag row"
  "dist_pc (normalize_row row) = dist_of_plx (Plx row)"
  "absmag (normalize_row row) = compute_absmag (dist_of_plx (Plx row)) (Vmag row)"
  "temp_k (normalize_row row) = bv_to_temp (BV row)"
  by (simp_all add: normalize_row_def Let_def)

lemma dist_of_plx_Some:
  "dist_of_plx p = Some d \<longleftrightarrow> (\<exists>x. p = Some x \<and> 0 < x \<and> d = 1000 / x)"
  by (auto simp: dist_of_plx_def split: option.splits)

lemma compute_absmag_Some:
  "compute_absmag d m = Some a \<Longrightarrow> d \<noteq> None \<and> m \<noteq> None"
  by (auto simp: compute_absmag_def split: option.splits)

text \<open>
  Claim C5. In every record of the normalized catalogue, dist_pc is present only if plx
  is present and strictly positive, and then it is 1000 / plx; absmag is present only
  if dist_pc and vmag both are; so a record whose plx is absent or not positive has
  neither dist_pc nor absmag. temp_k depends on bv alone (the witness has a record
  with a negative plx and a temp_k).
\<close>

theorem C5_derived_field_dependency:
  "\<forall>r \<in> set (normalize_and_compute df).
     (dist_pc r \<noteq> None \<longrightarrow> (\<exists>p. plx r = Some p \<and> 0 < p \<and> dist_pc r = Some (1000 / p)))
     \<and> (absmag r \<noteq> None \<longrightarrow> dist_pc r \<noteq> None \<and> vmag r \<noteq> None)
     \<and> (plx r = None \<or> (\<exists>p. plx r = Some p \<and> p \<le> 0) \<longrightarrow> dist_pc r = None \<and> absmag r = None)
     \<and> temp_k r = bv_to_temp (bv r)"
proof
  fix r
  assume "r \<in> set (normalize_and_compute df)"
  then obtain row where r: "r = normalize_row row"
    by (auto simp: normalize_and_compute_def)
  have a: "dist_pc r \<noteq> None \<longrightarrow> (\<exists>p. plx r = Some p \<and> 0 < p \<and> dist_pc r = Some (1000 / p))"
    by (auto simp: r normalize_row_def Let_def dist_of_plx_def split: option.splits if_splits)
  have b: "absmag r \<noteq> None \<longrightarrow> dist_pc r \<noteq> None \<and> vmag r \<noteq> None"
    by (auto simp: r normalize_row_def Let_def dist_of_plx_def compute_absmag_def split: option.splits if_splits)
  have c: "plx r = None \<or> (\<exists>p. plx r = Some p \<and> p \<le> 0) \<longrightarrow> dist_pc r = None \<and> absmag r = None"
    by (auto simp: r normalize_row_def Let_def dist_of_plx_def compute_absmag_def)
  have d: "temp_k r = bv_to_temp (bv r)"
    unfolding r by (simp add: normalize_row_def Let_def)
  from a b c d show "(dist_pc r \<noteq> None \<longrightarrow> (\<exists>p. plx r = Some p \<and> 0 < p \<and> dist_pc r = Some (1000 / p)))
     \<and> (absmag r \<noteq> None \<longrightarrow> dist_pc r \<noteq> None \<and> vmag r \<noteq> None)
     \<and> (plx r = None \<or> (\<exists>p. plx r = Some p \<and> p \<le> 0) \<longrightarrow> dist_pc r = None \<and> absmag r = None)
     \<and> temp_k r = bv_to_temp (bv r)" by blast
qed

lemma sample_df_out:
  "normalize_and_compute sample_df =
     [normalize_row (sample_df ! 0), normalize_row (sample_df ! 1), normalize_row (sample_df ! 2)]"
  by (simp add: normalize_and_compute_def normalize_row_def sample_df_def Let_def)

lemma sample_df_fields: "map hip (normalize_and_compute sample_df) = [Some 1, Some 2, Some 3]
   \<and> map plx (normalize_and_compute sample_df) = [Some 10, Some (- 3), None]
   \<and> map dist_pc (normalize_and_compute sample_df) = [Some 100, None, None]
   \<and> map (\<lambda>r. absmag r = None) (normalize_and_compute sample_df) = [False, True, True]
   \<and> map (\<lambda>r. temp_k r = None) (normalize_and_compute sample_df) = [False, False, False]"
  unfolding sample_df_out
  by (simp add: normalize_row_def sample_df_def Let_def
      dist_of_plx_def compute_absmag_def bv_to_temp_def)


theorem C5_derived_field_dependency_witness:
  "normalize_row (sample_df ! 1) \<in> set (normalize_and_compute sample_df)
   \<and> plx (normalize_row (sample_df ! 1)) = Some (- 3)
   \<and> dist_pc (normalize_row (sample_df ! 1)) = None
   \<and> absmag (normalize_row (sample_df ! 1)) = None
   \<and> temp_k (normalize_row (sample_df ! 1)) \<noteq> None
   \<and> map dist_pc (normalize_and_compute sample_df) = [Some 100, None, None]
   \<and> map (\<lambda>r. absmag r = None) (normalize_and_compute sample_df) = [False, True, True]"
proof -
  let ?r = "normalize_row (sample_df ! 1)"
  have mem: "?r \<in> set (normalize_and_compute sample_df)"
    unfolding sample_df_out by simp
  have p: "plx ?r = Some (- 3)"
    by (simp add: normalize_row_def sample_df_def Let_def)
  from C5_derived_field_dependency [of sample_df] mem
  have "plx ?r = None \<or> (\<exists>p. plx ?r = Some p \<and> p \<le> 0) \<longrightarrow> dist_pc ?r = None \<and> absmag ?r = None"
    by blast
  with p have d: "dist_pc ?r = None \<and> absmag ?r = None"
    by simp
  have t: "temp_k ?r \<noteq> None"
    by (simp add: normalize_row_def sample_df_def Let_def bv_to_temp_def)
  from mem p d t sample_df_fields show ?thesis by simp
qed


section \<open>Enricher (enrich_with_simbad_names.py)\<close>

definition BATCH_SIZE :: int where "BATCH_SIZE = 50"
definition DELAY_S :: real where "DELAY_S = 1"
definition RETRIES :: nat where "RETRIES = 3"
definition RETRY_DELAY :: real where "RETRY_DELAY = 3"

text \<open>String methods on ASCII strings.\<close>

definition to_upper :: "char \<Rightarrow> char" where
  "to_upper c =
     (case map_of (zip ''abcdefghijklmnopqrstuvwxyz'' ''ABCDEFGHIJKLMNOPQRSTUVWXYZ'') c of
        None \<Rightarrow> c
      | Some u \<Rightarrow> u)"

definition py_upper :: "string \<Rightarrow> string" where
  "py_upper s = map to_upper s"

definition startswith :: "string \<Rightarrow> string \<Rightarrow> bool" where
  "startswith s p = (take (length p) s = p)"

fun split_on :: "char \<Rightarrow> string \<Rightarrow> string list" where
  "split_on c [] = [[]]"
| "split_on c (x # xs) =
     (if x = c then [] # split_on c xs
      else (case split_on c xs of [] \<Rightarrow> [[x]] | p # ps \<Rightarrow> (x # p) # ps))"

text \<open>
  \<open>int(s)\<close> on a string: surrounding whitespace, an optional sign, and decimal digits
  with single underscores between them; \<open>None\<close> stands for ValueError.
\<close>

definition is_digit :: "char \<Rightarrow> bool" where
  "is_digit c = (c \<in> set ''0123456789'')"

definition digits_value :: "string \<Rightarrow> nat option" where
  "digits_value body =
     (let groups = split_on (CHR ''_'') body in
      if list_all (\<lambda>g. g \<noteq> [] \<and> list_all is_digit g) groups
      then Some (nat_of_str (concat groups)) else None)"

definition py_int_str :: "string \<Rightarrow> int option" where
  "py_int_str s =
     (case py_strip s of
        [] \<Rightarrow> None
      | c # cs \<Rightarrow>
         if c = CHR ''-'' then map_option (\<lambda>n. - int n) (digits_value cs)
         else if c = CHR ''+'' then map_option int (digits_value cs)
         else map_option int (digits_value (c # cs)))"


text \<open>
  The cache maps \<open>"HIP:<n>"\<close> to an entry \<open>{"main_id": string|null, "ids": [string]}\<close>;
  a dict keeps insertion order, and assigning to a key that is present keeps its place.
\<close>

record cache_entry =
  main_id :: "string option"
  ids :: "string list"

type_synonym cache = "(string \<times> cache_entry) list"

fun dict_set :: "('k \<times> 'v) list \<Rightarrow> 'k \<Rightarrow> 'v \<Rightarrow> ('k \<times> 'v) list" where
  "dict_set [] k v = [(k, v)]"
| "dict_set ((k', v') # rest) k v =
     (if k' = k then (k', v) # rest else (k', v') # dict_set rest k v)"

text \<open>
  The remote service. A row of a result table has the columns MAIN_ID and IDS; a request
  raises, returns \<open>None\<close>, or returns a table. \<open>simbad n qnames\<close> is the answer to the
  request number \<open>n\<close> of the run; \<open>world\<close> counts the requests made and records the
  calls of \<open>time.sleep\<close> in order.
\<close>

record simbad_row =
  MAIN_ID :: "string option"
  IDS :: "string option"

datatype response = Raises py_error | NoTable | Table "simbad_row list"

type_synonym simbad = "nat \<Rightarrow> string list \<Rightarrow> response"

record world =
  calls :: nat
  sleeps :: "real list"

text \<open>The row handling that both \<open>query_simbad_for_hips\<close> and \<open>main\<close> spell out.\<close>

definition parse_ids :: "string option \<Rightarrow> string list" where
  "parse_ids ids_raw =
     (case ids_raw of
        None \<Rightarrow> []
      | Some s \<Rightarrow>
         filter (\<lambda>t. t \<noteq> [])
           (map py_strip (split_on (if CHR ''|'' \<in> set s then CHR ''|'' else CHR '';'') s)))"

fun find_hip_key :: "string list \<Rightarrow> string option" where
  "find_hip_key [] = None"
| "find_hip_key (token # rest) =
     (let tok = filter (\<lambda>c. c \<noteq> CHR '' '') token in
      if startswith (py_upper tok) ''HIP'' then
        (case py_int_str (drop 3 tok) of
           Some n \<Rightarrow> Some (''HIP:'' @ str_int n)
         | None \<Rightarrow> find_hip_key rest)
      else find_hip_key rest)"

definition row_entry :: "simbad_row \<Rightarrow> cache_entry" where
  "row_entry row = \<lparr> main_id = MAIN_ID row, ids = parse_ids (IDS row) \<rparr>"

text \<open>\<open>query_simbad_for_hips\<close>: the retry loop, \<open>attempt\<close> running from 1 to RETRIES.\<close>

definition helper_store :: "cache \<Rightarrow> simbad_row \<Rightarrow> cache" where
  "helper_store out row =
     dict_set out
       (case find_hip_key (parse_ids (IDS row)) of None \<Rightarrow> ''HIP:UNKNOWN'' | Some k \<Rightarrow> k)
       (row_entry row)"

function query_attempts ::
  "simbad \<Rightarrow> string list \<Rightarrow> nat \<Rightarrow> world \<Rightarrow> (py_error + cache) \<times> world" where
  "query_attempts simbad qnames attempt w =
     (if RETRIES < attempt then (Inr [], w)
      else
        (case simbad (calls w) qnames of
           NoTable \<Rightarrow> (Inr [], w\<lparr>calls := calls w + 1\<rparr>)
         | Table rows \<Rightarrow> (Inr (foldl helper_store [] rows), w\<lparr>calls := calls w + 1\<rparr>)
         | Raises e \<Rightarrow>
            if attempt < RETRIES then
              query_attempts simbad qnames (attempt + 1)
                (w\<lparr>calls := calls w + 1, sleeps := sleeps w @ [RETRY_DELAY]\<rparr>)
            else (Inl e, w\<lparr>calls := calls w + 1\<rparr>)))"
  by pat_completeness auto
termination
  by (relation "measure (\<lambda>(simbad, qnames, attempt, w). RETRIES - attempt)") auto

declare query_attempts.simps [simp del]

definition query_simbad_for_hips ::
  "simbad \<Rightarrow> int list \<Rightarrow> world \<Rightarrow> (py_error + cache) \<times> world" where
  "query_simbad_for_hips simbad hip_list w =
     query_attempts simbad (map (\<lambda>h. ''HIP '' @ str_int h) hip_list) 1 w"

text \<open>
  \<open>main\<close>, first the reading loop: every non-blank line is parsed (an exception of
  \<open>json.loads\<close> is not caught) and the hip of the record, if any, is collected.
\<close>

fun py_int :: "json \<Rightarrow> py_error + int" where
  "py_int JNull = Inl TypeError"
| "py_int (JBool b) = Inr (if b then 1 else 0)"
| "py_int (JInt n) = Inr n"
| "py_int (JFloat (Fin x)) = Inr (if 0 \<le> x then \<lfloor>x\<rfloor> else \<lceil>x\<rceil>)"
| "py_int (JFloat PInf) = Inl OverflowError"
| "py_int (JFloat NInf) = Inl OverflowError"
| "py_int (JFloat NaN) = Inl ValueError"
| "py_int (JStr s) = (case py_int_str s of None \<Rightarrow> Inl ValueError | Some n \<Rightarrow> Inr n)"
| "py_int (JArr xs) = Inl TypeError"
| "py_int (JObj kvs) = Inl TypeError"

text \<open>\<open>if "hip" in obj and obj["hip"] is not None: hips.append(int(obj["hip"]))\<close>\<close>

fun hip_of_record :: "json \<Rightarrow> py_error + int option" where
  "hip_of_record (JObj kvs) =
     (case map_of kvs ''hip'' of
        None \<Rightarrow> Inr None
      | Some v \<Rightarrow>
         if v = JNull then Inr None
         else (case py_int v of Inl e \<Rightarrow> Inl e | Inr n \<Rightarrow> Inr (Some n)))"
| "hip_of_record (JArr xs) = (if JStr ''hip'' \<in> set xs then Inl TypeError else Inr None)"
| "hip_of_record (JStr s) =
     (if ''hip'' \<in> set (map (\<lambda>i. take 3 (drop i s)) [0..<length s]) then Inl TypeError
      else Inr None)"
| "hip_of_record JNull = Inl TypeError"
| "hip_of_record (JBool b) = Inl TypeError"
| "hip_of_record (JInt n) = Inl TypeError"
| "hip_of_record (JFloat f) = Inl TypeError"

fun read_records ::
  "(string \<Rightarrow> json option) \<Rightarrow> string list \<Rightarrow> py_error + json list \<times> int list" where
  "read_records loads [] = Inr ([], [])"
| "read_records loads (line # rest) =
     (case loads line of
        None \<Rightarrow> Inl ValueError
      | Some obj \<Rightarrow>
         (case hip_of_record obj of
            Inl e \<Rightarrow> Inl e
          | Inr h \<Rightarrow>
             (case read_records loads rest of
                Inl e \<Rightarrow> Inl e
              | Inr (records, hips) \<Rightarrow>
                 Inr (obj # records, (case h of None \<Rightarrow> [] | Some n \<Rightarrow> [n]) @ hips))))"

text \<open>
  The batch loop of \<open>main\<close>: one request per batch, inside \<open>try\<close>; a request that raises
  is treated like one that returns \<open>None\<close>. \<open>batch[0]\<close> is read before the request.
\<close>

definition mark_unresolved :: "cache \<Rightarrow> int \<Rightarrow> cache" where
  "mark_unresolved cache h = dict_set cache (''HIP:'' @ str_int h) \<lparr> main_id = None, ids = [] \<rparr>"

definition store_row :: "int \<Rightarrow> cache \<Rightarrow> simbad_row \<Rightarrow> cache" where
  "store_row first cache row =
     dict_set cache
       (case find_hip_key (parse_ids (IDS row)) of
          None \<Rightarrow> ''HIP:'' @ str_int first
        | Some k \<Rightarrow> k)
       (row_entry row)"

fun lookup_batches ::
  "simbad \<Rightarrow> real \<Rightarrow> int list list \<Rightarrow> cache \<times> world \<Rightarrow> py_error + cache \<times> world" where
  "lookup_batches simbad delay [] (cache, w) = Inr (cache, w)"
| "lookup_batches simbad delay (batch # rest) (cache, w) =
     (case batch of
        [] \<Rightarrow> Inl IndexError
      | first # _ \<Rightarrow>
         (let qnames = map (\<lambda>h. ''HIP '' @ str_int h) batch;
              tbl = (case simbad (calls w) qnames of
                       Raises e \<Rightarrow> None
                     | NoTable \<Rightarrow> None
                     | Table rows \<Rightarrow> Some rows);
              cache' = (case tbl of
                          None \<Rightarrow> foldl mark_unresolved cache batch
                        | Some rows \<Rightarrow> foldl (store_row first) cache rows)
          in lookup_batches simbad delay rest
               (cache', w\<lparr>calls := calls w + 1, sleeps := sleeps w @ [delay]\<rparr>)))"

text \<open>\<open>need[i:i+n] for i in range(0, len(need), n)\<close> with a positive step.\<close>

function chunks :: "nat \<Rightarrow> 'a list \<Rightarrow> 'a list list" where
  "chunks n xs = (if n = 0 \<or> xs = [] then [] else take n xs # chunks n (drop n xs))"
  by pat_completeness auto
termination
  by (relation "measure (\<lambda>(n, xs). length xs)") auto

declare chunks.simps [simp del]

text \<open>The enriching loop: the name of a record from the cache.\<close>

definition is_hip_alias :: "string \<Rightarrow> bool" where
  "is_hip_alias x = startswith (py_upper (py_strip x)) ''HIP''"

definition first_alias :: "string list \<Rightarrow> string option" where
  "first_alias xs =
     (case filter (\<lambda>x. \<not> is_hip_alias x) xs of
        [] \<Rightarrow> None
      | alt # _ \<Rightarrow> if alt = [] then None else Some alt)"

definition pick_name :: "cache_entry \<Rightarrow> string option" where
  "pick_name c =
     (case main_id c of
        None \<Rightarrow> first_alias (ids c)
      | Some m \<Rightarrow> if m \<noteq> [] then Some m else first_alias (ids c))"

definition name_json :: "string option \<Rightarrow> json" where
  "name_json name = (case name of None \<Rightarrow> JNull | Some s \<Rightarrow> JStr s)"

definition lookup_name :: "cache \<Rightarrow> json \<Rightarrow> py_error + string option" where
  "lookup_name cache h =
     (if h = JNull then Inr None
      else
        (case py_int h of
           Inl e \<Rightarrow> Inl e
         | Inr n \<Rightarrow>
            Inr (case map_of cache (''HIP:'' @ str_int n) of
                   None \<Rightarrow> None
                 | Some c \<Rightarrow> pick_name c)))"

definition enrich_record :: "cache \<Rightarrow> json \<Rightarrow> py_error + json" where
  "enrich_record cache rec =
     (case dict_get rec ''hip'' of
        Inl e \<Rightarrow> Inl e
      | Inr h \<Rightarrow>
         (case lookup_name cache h of
            Inl e \<Rightarrow> Inl e
          | Inr name \<Rightarrow>
             (case rec of
                JObj kvs \<Rightarrow> Inr (JObj (dict_set kvs ''name'' (name_json name)))
              | _ \<Rightarrow> Inl TypeError)))"

fun enrich_all :: "cache \<Rightarrow> json list \<Rightarrow> py_error + json list" where
  "enrich_all cache [] = Inr []"
| "enrich_all cache (rec # rest) =
     (case enrich_record cache rec of
        Inl e \<Rightarrow> Inl e
      | Inr r \<Rightarrow>
         (case enrich_all cache rest of
            Inl e \<Rightarrow> Inl e
          | Inr rs \<Rightarrow> Inr (r # rs)))"

text \<open>
  \<open>main\<close> on an input file that exists, given as its lines, and a loaded cache:
  the hips that need a lookup (\<open>sorted(set(hips))\<close> without the cached ones), the lookups
  (none when nothing is needed; \<open>range\<close> rejects a step of 0 and is empty for a negative
  one), and the enriching loop. The result holds the records handed to \<open>json.dumps\<close> in output order, the cache at the end
  and whether it was saved, and the requests and sleeps of the run.
\<close>

record enriched =
  out_records :: "json list"
  final_cache :: cache
  cache_saved :: bool
  effects :: world

definition needed :: "cache \<Rightarrow> int list \<Rightarrow> int list" where
  "needed cache hips =
     filter (\<lambda>h. map_of cache (''HIP:'' @ str_int h) = None) (sort (remdups hips))"

definition lookups ::
  "simbad \<Rightarrow> real \<Rightarrow> int \<Rightarrow> int list \<Rightarrow> cache \<Rightarrow> py_error + cache \<times> world" where
  "lookups simbad delay batch need cache =
     (if need = [] then Inr (cache, \<lparr>calls = 0, sleeps = []\<rparr>)
      else if batch = 0 then Inl ValueError
      else lookup_batches simbad delay
             (if batch < 0 then [] else chunks (nat batch) need)
             (cache, \<lparr>calls = 0, sleeps = []\<rparr>))"

definition enricher_main ::
  "(string \<Rightarrow> json option) \<Rightarrow> simbad \<Rightarrow> real \<Rightarrow> int \<Rightarrow> string list \<Rightarrow> cache
     \<Rightarrow> py_error + enriched" where
  "enricher_main loads simbad delay batch raw cache =
     (case read_records loads (filter (\<lambda>l. py_strip l \<noteq> []) raw) of
        Inl e \<Rightarrow> Inl e
      | Inr (records, hips) \<Rightarrow>
         (case lookups simbad delay batch (needed cache hips) cache of
            Inl e \<Rightarrow> Inl e
          | Inr (cache', w) \<Rightarrow>
             (case enrich_all cache' records of
                Inl e \<Rightarrow> Inl e
              | Inr out \<Rightarrow>
                 Inr \<lparr> out_records = out, final_cache = cache',
                       cache_saved = (needed cache hips \<noteq> []), effects = w \<rparr>)))"

text \<open>
  A service whose failures are replaced by empty results, to compare runs against; and
  fixtures for the closed examples: a service that always raises, and one that answers
  the first request with one row.
\<close>

definition swallow :: "simbad \<Rightarrow> simbad" where
  "swallow simbad k q = (case simbad k q of Raises e \<Rightarrow> NoTable | NoTable \<Rightarrow> NoTable | Table rows \<Rightarrow> Table rows)"

definition always_fails :: simbad where
  "always_fails k q = Raises (RemoteError ''timeout'')"

definition sample_simbad :: simbad where
  "sample_simbad k q =
     (if k = 0 then Table [\<lparr>MAIN_ID = Some ''* alf CMa'', IDS = Some ''HIP 2|HD 48915''\<rparr>]
      else NoTable)"

definition sample_enriched :: enriched where
  "sample_enriched =
     \<lparr> out_records =
         [JObj [(''hip'', JInt 2), (''name'', JStr ''* alf CMa''), (''dec'', JInt 5)],
          JObj [(''hip'', JInt 1), (''ra'', JFloat (Fin 361)), (''dec'', JFloat (Fin 95)),
                (''name'', JNull)]],
       final_cache = [(''HIP:2'', \<lparr>main_id = Some ''* alf CMa'', ids = [''HIP 2'', ''HD 48915'']\<rparr>)],
       cache_saved = True,
       effects = \<lparr>calls = 1, sleeps = [1]\<rparr> \<rparr>"


section \<open>Enricher: retries and failed requests\<close>


lemma query_attempts_last:
  assumes "simbad (calls w) qnames = Raises e"
  shows "query_attempts simbad qnames RETRIES w = (Inl e, w\<lparr>calls := calls w + 1\<rparr>)"
  using assms by (subst query_attempts.simps) simp

lemma query_attempts_retry:
  assumes "simbad (calls w) qnames = Raises e" and "attempt < RETRIES"
  shows "query_attempts simbad qnames attempt w =
           query_attempts simbad qnames (attempt + 1)
             (w\<lparr>calls := calls w + 1, sleeps := sleeps w @ [RETRY_DELAY]\<rparr>)"
  using assms by (subst query_attempts.simps) simp

lemma query_attempts_table:
  assumes "simbad (calls w) qnames = Table rows" and "attempt \<le> RETRIES"
  shows "query_attempts simbad qnames attempt w =
           (Inr (foldl helper_store [] rows), w\<lparr>calls := calls w + 1\<rparr>)"
  using assms by (subst query_attempts.simps) simp

lemma query_attempts_none:
  assumes "simbad (calls w) qnames = NoTable" and "attempt \<le> RETRIES"
  shows "query_attempts simbad qnames attempt w = (Inr [], w\<lparr>calls := calls w + 1\<rparr>)"
  using assms by (subst query_attempts.simps) simp

lemma query_attempts_all_fail:
  assumes "attempt \<le> RETRIES" and "1 \<le> attempt"
    and "\<And>k. k \<le> RETRIES - attempt \<Longrightarrow> simbad (calls w + k) qnames = Raises (err (attempt + k))"
  shows "query_attempts simbad qnames attempt w =
           (Inl (err RETRIES),
            w\<lparr>calls := calls w + (RETRIES - attempt + 1),
              sleeps := sleeps w @ replicate (RETRIES - attempt) RETRY_DELAY\<rparr>)"
  using assms
proof (induction "RETRIES - attempt" arbitrary: attempt w)
  case 0
  then have a: "attempt = RETRIES" by simp
  from 0(4) [of 0] a have "simbad (calls w) qnames = Raises (err RETRIES)" by simp
  then show ?case unfolding a by (simp add: query_attempts_last)
next
  case (Suc d)
  then have lt: "attempt < RETRIES" by simp
  from Suc(5) [of 0] have f: "simbad (calls w) qnames = Raises (err attempt)" by simp
  let ?w = "w\<lparr>calls := calls w + 1, sleeps := sleeps w @ [RETRY_DELAY]\<rparr>"
  have d: "d = RETRIES - (attempt + 1)" using Suc(2) by simp
  have rest: "simbad (calls ?w + k) qnames = Raises (err (attempt + 1 + k))"
    if "k \<le> RETRIES - (attempt + 1)" for k
    using Suc(5) [of "k + 1"] that lt by simp
  have "query_attempts simbad qnames (attempt + 1) ?w =
           (Inl (err RETRIES),
            ?w\<lparr>calls := calls ?w + (RETRIES - (attempt + 1) + 1),
              sleeps := sleeps ?w @ replicate (RETRIES - (attempt + 1)) RETRY_DELAY\<rparr>)"
    using lt rest by (intro Suc(1) [OF d]) simp_all
  moreover have "RETRIES - attempt = Suc (RETRIES - (attempt + 1))" using lt by simp
  moreover have "query_attempts simbad qnames attempt w = query_attempts simbad qnames (attempt + 1) ?w"
    using f lt by (rule query_attempts_retry [where e = "err attempt"])
  ultimately show ?case
    by (simp add: replicate_append_same)
qed

lemma lookup_batches_run:
  assumes "\<And>b. b \<in> set batches \<Longrightarrow> b \<noteq> []"
  shows "\<exists>cache' w'. lookup_batches simbad delay batches (cache, w) = Inr (cache', w')
           \<and> calls w' = calls w + length batches
           \<and> sleeps w' = sleeps w @ replicate (length batches) delay"
  using assms
proof (induction batches arbitrary: cache w)
  case Nil
  show ?case by simp
next
  case (Cons batch rest)
  from Cons.prems obtain first more where b: "batch = first # more"
    by (cases batch) auto
  define tbl where "tbl = (case simbad (calls w) (map (\<lambda>h. ''HIP '' @ str_int h) (first # more)) of
                       Raises e \<Rightarrow> None
                     | NoTable \<Rightarrow> None
                     | Table rows \<Rightarrow> Some rows)"
  define cache1 where "cache1 = (case tbl of
                          None \<Rightarrow> foldl mark_unresolved cache (first # more)
                        | Some rows \<Rightarrow> foldl (store_row first) cache rows)"
  let ?w = "w\<lparr>calls := calls w + 1, sleeps := sleeps w @ [delay]\<rparr>"
  have step: "lookup_batches simbad delay (batch # rest) (cache, w)
                = lookup_batches simbad delay rest (cache1, ?w)"
    by (simp add: b Let_def cache1_def tbl_def)
  from Cons.prems have "\<And>b. b \<in> set rest \<Longrightarrow> b \<noteq> []" by simp
  from Cons.IH [OF this, of cache1 ?w] obtain cache' w'
    where "lookup_batches simbad delay rest (cache1, ?w) = Inr (cache', w')"
      and "calls w' = calls ?w + length rest"
      and "sleeps w' = sleeps ?w @ replicate (length rest) delay"
    by blast
  then show ?case
    unfolding step by (simp add: replicate_append_same)
qed

lemma lookup_batches_all_fail:
  assumes "\<And>b. b \<in> set batches \<Longrightarrow> b \<noteq> []"
    and "\<And>k q. \<exists>e. simbad k q = Raises e"
  shows "\<exists>w'. lookup_batches simbad delay batches (cache, w)
               = Inr (foldl mark_unresolved cache (concat batches), w')"
  using assms(1)
proof (induction batches arbitrary: cache w)
  case Nil
  show ?case by simp
next
  case (Cons batch rest)
  from Cons.prems obtain first more where b: "batch = first # more"
    by (cases batch) auto
  from assms(2) obtain e where e: "simbad (calls w) (map (\<lambda>h. ''HIP '' @ str_int h) batch) = Raises e"
    by blast
  let ?w = "w\<lparr>calls := calls w + 1, sleeps := sleeps w @ [delay]\<rparr>"
  have step: "lookup_batches simbad delay (batch # rest) (cache, w)
                = lookup_batches simbad delay rest (foldl mark_unresolved cache batch, ?w)"
    using e by (simp add: b Let_def)
  from Cons.prems have "\<And>b. b \<in> set rest \<Longrightarrow> b \<noteq> []" by simp
  from Cons.IH [OF this, of "foldl mark_unresolved cache batch" ?w]
  show ?case unfolding step by simp
qed

lemma chunks_nonempty: "b \<in> set (chunks n xs) \<Longrightarrow> b \<noteq> []"
proof (induction n xs rule: chunks.induct)
  case (1 n xs)
  show ?case
  proof (cases "n = 0 \<or> xs = []")
    case True
    with 1(2) show ?thesis by (simp add: chunks.simps)
  next
    case False
    with 1(2) have "b = take n xs \<or> b \<in> set (chunks n (drop n xs))"
      by (subst (asm) chunks.simps) auto
    with False 1(1) show ?thesis by auto
  qed
qed

lemma concat_chunks: "0 < n \<Longrightarrow> concat (chunks n xs) = xs"
proof (induction n xs rule: chunks.induct)
  case (1 n xs)
  show ?case
  proof (cases "xs = []")
    case True
    then show ?thesis by (simp add: chunks.simps)
  next
    case False
    with 1 have "concat (chunks n (drop n xs)) = drop n xs" by simp
    with False 1(2) show ?thesis by (subst chunks.simps) simp
  qed
qed

lemma lookup_batches_swallow:
  "lookup_batches (swallow simbad) delay batches (cache, w) = lookup_batches simbad delay batches (cache, w)"
proof (induction batches arbitrary: cache w)
  case Nil
  show ?case by simp
next
  case (Cons batch rest)
  show ?case
  proof (cases batch)
    case Nil
    then show ?thesis by simp
  next
    case (Cons first more)
    have "(case swallow simbad (calls w) q of Raises e \<Rightarrow> None | NoTable \<Rightarrow> None | Table rows \<Rightarrow> Some rows)
          = (case simbad (calls w) q of Raises e \<Rightarrow> None | NoTable \<Rightarrow> None | Table rows \<Rightarrow> Some rows)" for q
      by (simp add: swallow_def split: response.splits)
    then show ?thesis
      using Cons.IH by (simp add: Cons Let_def)
  qed
qed

lemma enricher_main_swallow:
  "enricher_main loads (swallow simbad) delay batch raw cache = enricher_main loads simbad delay batch raw cache"
  unfolding enricher_main_def lookups_def lookup_batches_swallow by (rule refl)

text \<open>
  Claim C6, amended. The helper \<open>query_simbad_for_hips\<close> makes RETRIES = 3 attempts in
  all when every attempt raises, sleeps RETRY_DELAY between attempts, and raises the
  error of the last attempt. The run (\<open>main\<close>) does not call the helper: it sends one
  request per batch, whatever the service answers, sleeps the delay after each batch
  and reaches the end of the batches; when every request raises, every hip that needed
  a lookup is cached as unresolved; and the run is the same as against a service that
  answers with no result where the real one raises.
\<close>

theorem C6_retry_in_helper_not_in_main:
  "((\<forall>k < RETRIES. simbad (calls w + k) (map (\<lambda>h. ''HIP '' @ str_int h) hip_list) = Raises (err (k + 1)))
      \<longrightarrow> query_simbad_for_hips simbad hip_list w
            = (Inl (err RETRIES),
               w\<lparr>calls := calls w + RETRIES, sleeps := sleeps w @ replicate (RETRIES - 1) RETRY_DELAY\<rparr>))
   \<and> (0 < n \<longrightarrow>
        (\<exists>cache' w'. lookup_batches simbad delay (chunks n need) (cache, w) = Inr (cache', w')
            \<and> calls w' = calls w + length (chunks n need)
            \<and> sleeps w' = sleeps w @ replicate (length (chunks n need)) delay))
   \<and> (0 < n \<and> (\<forall>k q. \<exists>e. simbad k q = Raises e) \<longrightarrow>
        (\<exists>w'. lookup_batches simbad delay (chunks n need) (cache, w)
                = Inr (foldl mark_unresolved cache need, w')))
   \<and> enricher_main loads simbad delay batch raw cache
        = enricher_main loads (swallow simbad) delay batch raw cache"
proof -
  have helper: "query_simbad_for_hips simbad hip_list w
            = (Inl (err RETRIES),
               w\<lparr>calls := calls w + RETRIES, sleeps := sleeps w @ replicate (RETRIES - 1) RETRY_DELAY\<rparr>)"
    if f: "\<forall>k < RETRIES. simbad (calls w + k) (map (\<lambda>h. ''HIP '' @ str_int h) hip_list) = Raises (err (k + 1))"
  proof -
    have "query_attempts simbad (map (\<lambda>h. ''HIP '' @ str_int h) hip_list) 1 w =
           (Inl (err RETRIES),
            w\<lparr>calls := calls w + (RETRIES - 1 + 1),
              sleeps := sleeps w @ replicate (RETRIES - 1) RETRY_DELAY\<rparr>)"
    proof (rule query_attempts_all_fail)
      show "1 \<le> RETRIES" by (simp add: RETRIES_def)
      show "(1::nat) \<le> 1" by simp
      fix k assume "k \<le> RETRIES - 1"
      then have "k < RETRIES" by (simp add: RETRIES_def)
      with f show "simbad (calls w + k) (map (\<lambda>h. ''HIP '' @ str_int h) hip_list) = Raises (err (1 + k))"
        by simp
    qed
    then show ?thesis by (simp add: query_simbad_for_hips_def RETRIES_def)
  qed
  have ne: "\<And>b. b \<in> set (chunks n need) \<Longrightarrow> b \<noteq> []"
    by (rule chunks_nonempty)
  have run: "\<exists>cache' w'. lookup_batches simbad delay (chunks n need) (cache, w) = Inr (cache', w')
            \<and> calls w' = calls w + length (chunks n need)
            \<and> sleeps w' = sleeps w @ replicate (length (chunks n need)) delay"
    using ne by (rule lookup_batches_run)
  have fail: "\<exists>w'. lookup_batches simbad delay (chunks n need) (cache, w)
                = Inr (foldl mark_unresolved cache need, w')"
    if "0 < n" and "\<forall>k q. \<exists>e. simbad k q = Raises e"
  proof -
    from that(2) have "\<And>k q. \<exists>e. simbad k q = Raises e" by blast
    with ne have "\<exists>w'. lookup_batches simbad delay (chunks n need) (cache, w)
               = Inr (foldl mark_unresolved cache (concat (chunks n need)), w')"
      by (rule lookup_batches_all_fail)
    with that(1) show ?thesis by (simp add: concat_chunks)
  qed
  from helper run fail show ?thesis
    by (simp add: enricher_main_swallow)
qed

theorem C6_retry_in_helper_not_in_main_witness:
  "query_simbad_for_hips always_fails [1] \<lparr>calls = 0, sleeps = []\<rparr>
     = (Inl (RemoteError ''timeout''), \<lparr>calls = 3, sleeps = [3, 3]\<rparr>)
   \<and> (\<exists>w'. lookup_batches always_fails 1 (chunks 1 [1, 2]) ([], \<lparr>calls = 0, sleeps = []\<rparr>)
              = Inr ([(''HIP:1'', \<lparr>main_id = None, ids = []\<rparr>),
                      (''HIP:2'', \<lparr>main_id = None, ids = []\<rparr>)], w'))"
proof -
  note T = C6_retry_in_helper_not_in_main
    [where simbad = always_fails and w = "\<lparr>calls = 0, sleeps = []\<rparr>" and hip_list = "[1]"
       and err = "\<lambda>k. RemoteError ''timeout''" and n = 1 and need = "[1, 2]" and delay = 1
       and cache = "[]"]
  have h: "\<forall>k < RETRIES. always_fails (calls \<lparr>calls = 0, sleeps = []\<rparr> + k)
             (map (\<lambda>h. ''HIP '' @ str_int h) [1]) = Raises (RemoteError ''timeout'')"
    by (simp add: always_fails_def)
  from T [THEN conjunct1, THEN mp, OF h]
  have a: "query_simbad_for_hips always_fails [1] \<lparr>calls = 0, sleeps = []\<rparr>
     = (Inl (RemoteError ''timeout''), \<lparr>calls = 3, sleeps = [3, 3]\<rparr>)"
    by (simp add: RETRIES_def RETRY_DELAY_def numeral_3_eq_3)
  have g: "(0::nat) < 1 \<and> (\<forall>k q. \<exists>e. always_fails k q = Raises e)"
    by (simp add: always_fails_def)
  from T [THEN conjunct2, THEN conjunct2, THEN conjunct1, THEN mp, OF g]
  have b: "\<exists>w'. lookup_batches always_fails 1 (chunks 1 [1, 2]) ([], \<lparr>calls = 0, sleeps = []\<rparr>)
              = Inr ([(''HIP:1'', \<lparr>main_id = None, ids = []\<rparr>),
                      (''HIP:2'', \<lparr>main_id = None, ids = []\<rparr>)], w')"
    by (simp add: mark_unresolved_def str_int_def str_nat.simps digit_char_def)
  from a b show ?thesis by blast
qed

lemmas enricher_eval = enricher_main_def lookups_def needed_def py_strip_def is_space_def sample_loads_def
  lookup_name_def enrich_record_def name_json_def mark_unresolved_def chunks.simps
  str_int_def str_nat.simps digit_char_def Let_def pick_name_def first_alias_def is_hip_alias_def
  startswith_def py_upper_def to_upper_def

text \<open>
  Claim C6, as stated, on a run of two batches against a service that always raises:
  the run does not abort, it sends two requests (one per batch, no retry), goes on to
  the second batch after the first failed, and caches both hips as unresolved.
\<close>

theorem C6_failed_request_does_not_abort:
  \<open>enricher_main sample_loads always_fails 1 1
      [''{"hip": 2, "ra": -10.0, "dec": -90.0}'', ''{"hip": 1, "ra": 361.0, "dec": 95.0}''] []
    = Inr \<lparr> out_records =
              [JObj [(''hip'', JInt 2), (''ra'', JFloat (Fin (- 10))), (''dec'', JFloat (Fin (- 90))),
                     (''name'', JNull)],
               JObj [(''hip'', JInt 1), (''ra'', JFloat (Fin 361)), (''dec'', JFloat (Fin 95)),
                     (''name'', JNull)]],
            final_cache =
              [(''HIP:1'', \<lparr> main_id = None, ids = [] \<rparr>), (''HIP:2'', \<lparr> main_id = None, ids = [] \<rparr>)],
            cache_saved = True,
            effects = \<lparr> calls = 2, sleeps = [1, 1] \<rparr> \<rparr>\<close>
  by (simp add: enricher_eval always_fails_def)


section \<open>Enricher: the name of a record\<close>

lemma map_of_dict_set: "map_of (dict_set kvs k v) = (map_of kvs)(k \<mapsto> v)"
  by (induction kvs) (auto simp: fun_eq_iff)

lemma dict_set_others:
  "filter (\<lambda>kv. fst kv \<noteq> k) (dict_set kvs k v) = filter (\<lambda>kv. fst kv \<noteq> k) kvs"
  by (induction kvs) auto










section \<open>Enricher: the output stream\<close>

lemma read_records_parsed:
  "read_records loads lines = Inr (records, hips) \<Longrightarrow> map loads lines = map Some records"
proof (induction lines arbitrary: records hips)
  case Nil
  then show ?case by simp
next
  case (Cons line lines)
  from Cons.prems obtain obj h rs hs
    where "loads line = Some obj" and "read_records loads lines = Inr (rs, hs)"
      and "records = obj # rs"
    by (auto split: option.splits sum.splits)
  with Cons.IH [of rs hs] show ?case by simp
qed

lemma enrich_all_pointwise:
  "enrich_all cache recs = Inr out \<Longrightarrow> list_all2 (\<lambda>r e. enrich_record cache r = Inr e) recs out"
proof (induction recs arbitrary: out)
  case Nil
  then show ?case by simp
next
  case (Cons r recs)
  from Cons.prems obtain e es
    where "enrich_record cache r = Inr e" and "enrich_all cache recs = Inr es" and "out = e # es"
    by (auto split: sum.splits)
  with Cons.IH [of es] show ?case by simp
qed

lemma enrich_record_shape:
  assumes "enrich_record cache r = Inr e"
  shows "\<exists>kvs name. r = JObj kvs \<and> e = JObj (dict_set kvs ''name'' (name_json name))"
  using assms by (cases r) (auto simp: enrich_record_def split: sum.splits)

lemma enricher_main_out:
  assumes "enricher_main loads simbad delay batch raw cache = Inr res"
  shows "\<exists>records hips cache'.
           read_records loads (filter (\<lambda>l. py_strip l \<noteq> []) raw) = Inr (records, hips)
           \<and> enrich_all cache' records = Inr (out_records res)"
  using assms
  by (auto simp: enricher_main_def split: sum.splits prod.splits)

text \<open>
  Claim C10. When the run reaches its end, it emits one record per non-blank input
  line, in input order; each is the parsed input record with the field name set to a
  string or null: every other field keeps its value and its place.
\<close>

theorem C10_output_preserves_input:
  assumes "enricher_main loads simbad delay batch raw cache = Inr res"
  shows "length (out_records res) = length (filter (\<lambda>l. py_strip l \<noteq> []) raw)
       \<and> (\<forall>i < length (out_records res).
            \<exists>kvs v. loads (filter (\<lambda>l. py_strip l \<noteq> []) raw ! i) = Some (JObj kvs)
              \<and> out_records res ! i = JObj (dict_set kvs ''name'' v)
              \<and> (v = JNull \<or> (\<exists>s. v = JStr s))
              \<and> map_of (dict_set kvs ''name'' v) = (map_of kvs)(''name'' \<mapsto> v)
              \<and> filter (\<lambda>kv. fst kv \<noteq> ''name'') (dict_set kvs ''name'' v)
                  = filter (\<lambda>kv. fst kv \<noteq> ''name'') kvs)"
proof -
  let ?lines = "filter (\<lambda>l. py_strip l \<noteq> []) raw"
  from enricher_main_out [OF assms] obtain records hips cache'
    where rd: "read_records loads ?lines = Inr (records, hips)"
      and en: "enrich_all cache' records = Inr (out_records res)"
    by blast
  from rd have parsed: "map loads ?lines = map Some records" by (rule read_records_parsed)
  then have len1: "length ?lines = length records" by (metis length_map)
  from en have pw: "list_all2 (\<lambda>r e. enrich_record cache' r = Inr e) records (out_records res)"
    by (rule enrich_all_pointwise)
  then have len2: "length records = length (out_records res)" by (rule list_all2_lengthD)
  have each: "\<exists>kvs v. loads (?lines ! i) = Some (JObj kvs)
              \<and> out_records res ! i = JObj (dict_set kvs ''name'' v)
              \<and> (v = JNull \<or> (\<exists>s. v = JStr s))
              \<and> map_of (dict_set kvs ''name'' v) = (map_of kvs)(''name'' \<mapsto> v)
              \<and> filter (\<lambda>kv. fst kv \<noteq> ''name'') (dict_set kvs ''name'' v)
                  = filter (\<lambda>kv. fst kv \<noteq> ''name'') kvs"
    if i: "i < length (out_records res)" for i
  proof -
    from i len2 have ir: "i < length records" by simp
    with pw have "enrich_record cache' (records ! i) = Inr (out_records res ! i)"
      by (rule list_all2_nthD)
    then obtain kvs name where r: "records ! i = JObj kvs"
      and e: "out_records res ! i = JObj (dict_set kvs ''name'' (name_json name))"
      using enrich_record_shape by blast
    from parsed ir len1 have "loads (?lines ! i) = Some (records ! i)"
      by (metis nth_map)
    with r have l: "loads (?lines ! i) = Some (JObj kvs)" by simp
    have v: "name_json name = JNull \<or> (\<exists>s. name_json name = JStr s)"
      by (cases name) (simp_all add: name_json_def)
    show ?thesis
    proof (intro exI conjI)
      show "loads (?lines ! i) = Some (JObj kvs)" by (rule l)
      show "out_records res ! i = JObj (dict_set kvs ''name'' (name_json name))" by (rule e)
      show "name_json name = JNull \<or> (\<exists>s. name_json name = JStr s)" by (rule v)
      show "map_of (dict_set kvs ''name'' (name_json name)) = (map_of kvs)(''name'' \<mapsto> name_json name)"
        by (rule map_of_dict_set)
      show "filter (\<lambda>kv. fst kv \<noteq> ''name'') (dict_set kvs ''name'' (name_json name))
              = filter (\<lambda>kv. fst kv \<noteq> ''name'') kvs"
        by (rule dict_set_others)
    qed
  qed
  from len1 len2 each show ?thesis by simp
qed

lemma sample_enricher_run:
  \<open>enricher_main sample_loads sample_simbad 1 50
      [''{"hip": 2, "name": "old", "dec": 5}'', ''  '', ''{"hip": 1, "ra": 361.0, "dec": 95.0}''] []
    = Inr sample_enriched\<close>
  by (simp add: enricher_eval sample_simbad_def sample_enriched_def store_row_def row_entry_def
      parse_ids_def py_int_str_def digits_value_def is_digit_def nat_of_str_def digit_val_def)

theorem C10_output_preserves_input_witness:
  \<open>enricher_main sample_loads sample_simbad 1 50
      [''{"hip": 2, "name": "old", "dec": 5}'', ''  '', ''{"hip": 1, "ra": 361.0, "dec": 95.0}''] []
    = Inr sample_enriched
   \<and> length (out_records sample_enriched)
       = length (filter (\<lambda>l. py_strip l \<noteq> [])
           [''{"hip": 2, "name": "old", "dec": 5}'', ''  '', ''{"hip": 1, "ra": 361.0, "dec": 95.0}''])
   \<and> length (out_records sample_enriched) = 2
   \<and> out_records sample_enriched ! 0
       = JObj [(''hip'', JInt 2), (''name'', JStr ''* alf CMa''), (''dec'', JInt 5)]
   \<and> sample_loads ''{"hip": 2, "name": "old", "dec": 5}''
       = Some (JObj [(''hip'', JInt 2), (''name'', JStr ''old''), (''dec'', JInt 5)])\<close>
proof -
  from C10_output_preserves_input [OF sample_enricher_run]
  have \<open>length (out_records sample_enriched)
       = length (filter (\<lambda>l. py_strip l \<noteq> [])
           [''{"hip": 2, "name": "old", "dec": 5}'', ''  '', ''{"hip": 1, "ra": 361.0, "dec": 95.0}''])\<close>
    by (rule conjunct1)
  moreover have \<open>length (out_records sample_enriched) = 2
   \<and> out_records sample_enriched ! 0
       = JObj [(''hip'', JInt 2), (''name'', JStr ''* alf CMa''), (''dec'', JInt 5)]
   \<and> sample_loads ''{"hip": 2, "name": "old", "dec": 5}''
       = Some (JObj [(''hip'', JInt 2), (''name'', JStr ''old''), (''dec'', JInt 5)])\<close>
    by (simp add: sample_enriched_def sample_loads_def)
  ultimately show ?thesis
    using sample_enricher_run by blast
qed


section \<open>Synthesizer (make_10k_after_hip50.py)\<close>


text \<open>
  The input records are star records of the data model. The random numbers a star
  consumes are given: \<open>make_new_star_from_template\<close> makes five calls of \<open>np.random\<close>,
  one each for ra, dec, distance, vmag and bv, whichever branch is taken.
\<close>

definition ballesteros_temp_from_bv :: "real option \<Rightarrow> real option" where
  "ballesteros_temp_from_bv b =
     (case b of
        None \<Rightarrow> None
      | Some x \<Rightarrow>
         if 92 / 100 * x + 17 / 10 = 0 \<or> 92 / 100 * x + 62 / 100 = 0 then None
         else Some (4600 * (1 / (92 / 100 * x + 17 / 10) + 1 / (92 / 100 * x + 62 / 100))))"

record draws =
  d_ra :: real
  d_dec :: real
  d_dist :: real
  d_vmag :: real
  d_bv :: real

definition make_new_star_from_template :: "star_record \<Rightarrow> int \<Rightarrow> draws \<Rightarrow> star_record" where
  "make_new_star_from_template template new_hip dr =
     (let ra' = (case ra template of
                   None \<Rightarrow> d_ra dr
                 | Some t \<Rightarrow> float_mod (t + d_ra dr) 360);
          dec' = (case dec template of
                    None \<Rightarrow> d_dec dr
                  | Some t \<Rightarrow> max (- 90) (min 90 (t + d_dec dr)));
          dist = (case dist_pc template of
                    None \<Rightarrow> 10 powr d_dist dr
                  | Some t \<Rightarrow>
                     if t \<noteq> 0 \<and> 0 < t then max 1 (t * 10 powr d_dist dr)
                     else 10 powr d_dist dr);
          plx' = (if 0 < dist then Some (1000 / dist) else None);
          vmag' = (case vmag template of
                     None \<Rightarrow> max (- 2) (min 18 (d_vmag dr))
                   | Some t \<Rightarrow> max (- 2) (t + d_vmag dr));
          bv' = max (- (1 / 2))
                  (min 2 (case bv template of None \<Rightarrow> d_bv dr | Some t \<Rightarrow> t + d_bv dr));
          absmag' = (if dist \<noteq> 0 \<and> 0 < dist then Some (vmag' - 5 * (log 10 dist - 1)) else None)
      in \<lparr> hip = Some new_hip, ra = Some ra', dec = Some dec', dist_pc = Some dist,
           vmag = Some vmag', plx = plx', bv = Some bv', sp_type = None,
           absmag = absmag', temp_k = ballesteros_temp_from_bv (Some bv') \<rparr>)"












section \<open>Synthesizer: fresh identifiers\<close>

lemma hip_make_new_star [simp]:
  "hip (make_new_star_from_template template new_hip dr) = Some new_hip"
  by (simp add: make_new_star_from_template_def Let_def)















end
